theory Spec2Isabelle
  imports Main "HOL-Library.Word"
begin

section \<open>Shared data (shall.h)\<close>

text \<open>
  The tagged unions of \<^verbatim>\<open>shall.h\<close>. A string payload is the content of a
  null-terminated C string: the bytes before the first null byte.
\<close>

datatype token =
    TOKEN_EOF
  | TOKEN_SEMI
  | TOKEN_EOLN
  | TOKEN_STRING string
  | TOKEN_AMPERSAND
  | TOKEN_GT
  | TOKEN_LT
  | TOKEN_CB_OPEN
  | TOKEN_CB_CLOSE

datatype element =
    ELEMENT_ARG string
  | ELEMENT_REDIR_FILE_IN int string
  | ELEMENT_REDIR_FILE_OUT int string
  | ELEMENT_REDIR_FILE_APPEND int string
  | ELEMENT_REDIR_FD_IN int int
  | ELEMENT_REDIR_FD_OUT int int
  | ELEMENT_SEMI
  | ELEMENT_BACKGROUND
  | ELEMENT_EOLN
  | ELEMENT_ERROR
  | ELEMENT_EOF

text \<open>
  A call either returns, or a failed \<^verbatim>\<open>assert\<close> aborts the process.
\<close>

datatype 'a result = Aborted | Ok 'a

text \<open>One round of a \<^verbatim>\<open>for (;;)\<close> loop either returns from the function or goes round again.\<close>

datatype ('r, 's) step = Return 'r | Continue 's

section \<open>The reader (reader.c)\<close>

text \<open>
  \<^verbatim>\<open>reader_next\<close> returns a \<^verbatim>\<open>char\<close>: the next byte of the stream, or
  \<^verbatim>\<open>EOF\<close> (-1) narrowed to \<^verbatim>\<open>char\<close>, which is the byte 0xFF. The tokenizer
  compares the returned \<^verbatim>\<open>char\<close> with \<^verbatim>\<open>EOF\<close>, so (with the signed
  \<^verbatim>\<open>char\<close> the code relies on) a byte 0xFF of the stream reads as end of input. The stream is the
  list of the bytes still to come; at its end every further read gives \<^verbatim>\<open>EOF\<close> again.
\<close>

definition EOF_char :: char where
  "EOF_char = CHR 0xFF"

fun reader_next :: "char list \<Rightarrow> char \<times> char list" where
  "reader_next [] = (EOF_char, [])"
| "reader_next (c # cs) = (c, cs)"

section \<open>The tokenizer (token.c)\<close>

datatype tokenizer_state =
    TOKENIZER_NEUTRAL
  | TOKENIZER_BUFFERED
  | TOKENIZER_ESC
  | TOKENIZER_SQ_STRING
  | TOKENIZER_DQ_STRING
  | TOKENIZER_EOF

text \<open>
  \<^verbatim>\<open>struct tokenizer\<close>. The field \<open>tstring\<close> is \<open>None\<close> for the null pointer and
  otherwise holds the \<^verbatim>\<open>strlen\<close> bytes appended so far.
\<close>

record tokenizer =
  reader :: "char list"
  tstate :: tokenizer_state
  buffered :: char
  tstring :: "string option"

definition tokenizer_create :: "char list \<Rightarrow> tokenizer" where
  "tokenizer_create rd =
     \<lparr>reader = rd, tstate = TOKENIZER_NEUTRAL, buffered = CHR 0x00, tstring = None\<rparr>"

definition chars_of :: "string option \<Rightarrow> string" where
  "chars_of s = (case s of None \<Rightarrow> [] | Some cs \<Rightarrow> cs)"

definition tokenizer_append :: "tokenizer \<Rightarrow> char \<Rightarrow> tokenizer" where
  "tokenizer_append t c = t\<lparr>tstring := Some (chars_of (tstring t) @ [c])\<rparr>"

text \<open>The content of the C string held in a buffer that ends with a null byte.\<close>

definition c_str :: "string \<Rightarrow> string" where
  "c_str cs = takeWhile (\<lambda>c. c \<noteq> CHR 0x00) cs"

definition tokenizer_string :: "tokenizer \<Rightarrow> token \<times> tokenizer" where
  "tokenizer_string t =
     (let t1 = tokenizer_append t (CHR 0x00)
      in (TOKEN_STRING (c_str (chars_of (tstring t1))),
          t1\<lparr>tstring := None, tstate := TOKENIZER_NEUTRAL\<rparr>))"

definition tokenizer_buffer :: "tokenizer \<Rightarrow> char \<Rightarrow> token \<Rightarrow> token \<times> tokenizer" where
  "tokenizer_buffer t c tt =
     (if tstring t = None then (tt, t)
      else (let (token, t1) = tokenizer_string t
            in (token, t1\<lparr>tstate := TOKENIZER_BUFFERED, buffered := c\<rparr>)))"

definition tokenizer_eof :: "tokenizer \<Rightarrow> (token \<times> tokenizer) result" where
  "tokenizer_eof t =
     (if tstate t = TOKENIZER_EOF then Aborted
      else (let t1 = t\<lparr>tstate := TOKENIZER_EOF\<rparr>
            in if tstring t1 = None then Ok (TOKEN_EOF, t1)
               else Ok (tokenizer_string t1)))"

text \<open>
  The body of the loop of \<^verbatim>\<open>tokenizer_next\<close> after the character \<open>c\<close> has been
  fetched: the \<^verbatim>\<open>switch\<close> on the state, and in it the \<^verbatim>\<open>switch\<close> on \<open>c\<close>.
\<close>

definition tokenizer_char ::
  "tokenizer \<Rightarrow> char \<Rightarrow> ((token \<times> tokenizer) result, tokenizer) step" where
  "tokenizer_char t c =
     (case tstate t of
        TOKENIZER_EOF \<Rightarrow> Return Aborted
      | TOKENIZER_NEUTRAL \<Rightarrow>
          (if c = EOF_char then Return (tokenizer_eof t)
           else if c = CHR ''<'' then Return (Ok (tokenizer_buffer t c TOKEN_LT))
           else if c = CHR ''>'' then Return (Ok (tokenizer_buffer t c TOKEN_GT))
           else if c = CHR ''&'' then Return (Ok (tokenizer_buffer t c TOKEN_AMPERSAND))
           else if c = CHR ''{'' then Return (Ok (tokenizer_buffer t c TOKEN_CB_OPEN))
           else if c = CHR ''}'' then Return (Ok (tokenizer_buffer t c TOKEN_CB_CLOSE))
           else if c = CHR '';'' then Return (Ok (tokenizer_buffer t c TOKEN_SEMI))
           else if c = CHR 0x0A then Return (Ok (tokenizer_buffer t c TOKEN_EOLN))
           else if c = CHR '' '' \<or> c = CHR 0x09 \<or> c = CHR 0x0D \<or> c = CHR 0x00 then
             (if tstring t \<noteq> None then Return (Ok (tokenizer_string t)) else Continue t)
           else if c = CHR 0x5C then Continue (t\<lparr>tstate := TOKENIZER_ESC\<rparr>)
           else if c = CHR 0x27 then Continue (t\<lparr>tstate := TOKENIZER_SQ_STRING\<rparr>)
           else if c = CHR 0x22 then Continue (t\<lparr>tstate := TOKENIZER_DQ_STRING\<rparr>)
           else Continue (tokenizer_append t c))
      | TOKENIZER_ESC \<Rightarrow>
          (if c = EOF_char then Return (tokenizer_eof t)
           else Continue (tokenizer_append (t\<lparr>tstate := TOKENIZER_NEUTRAL\<rparr>) c))
      | TOKENIZER_SQ_STRING \<Rightarrow>
          (if c = EOF_char then Return (tokenizer_eof t)
           else if c = CHR 0x27 then Continue (t\<lparr>tstate := TOKENIZER_NEUTRAL\<rparr>)
           else Continue (tokenizer_append t c))
      | TOKENIZER_DQ_STRING \<Rightarrow>
          (if c = EOF_char then Return (tokenizer_eof t)
           else if c = CHR 0x22 then Continue (t\<lparr>tstate := TOKENIZER_NEUTRAL\<rparr>)
           else Continue (tokenizer_append t c))
      | TOKENIZER_BUFFERED \<Rightarrow> Return Aborted)"

text \<open>
  The head of the loop: the character comes from the one-byte buffer, which puts the state
  back to neutral, or from the reader.
\<close>

definition tokenizer_fetch :: "tokenizer \<Rightarrow> char \<times> tokenizer" where
  "tokenizer_fetch t =
     (if tstate t = TOKENIZER_BUFFERED then (buffered t, t\<lparr>tstate := TOKENIZER_NEUTRAL\<rparr>)
      else (fst (reader_next (reader t)), t\<lparr>reader := snd (reader_next (reader t))\<rparr>))"

definition tokenizer_measure :: "tokenizer \<Rightarrow> nat" where
  "tokenizer_measure t =
     2 * length (reader t) + (if tstate t = TOKENIZER_BUFFERED then 1 else 0)"

lemma tokenizer_char_Continue:
  assumes "tokenizer_char t c = Continue t2"
  shows "c \<noteq> EOF_char \<and> reader t2 = reader t \<and> tstate t2 \<noteq> TOKENIZER_BUFFERED
         \<and> tstate t2 \<noteq> TOKENIZER_EOF"
  using assms
  by (auto simp: tokenizer_char_def tokenizer_append_def
           split: tokenizer_state.splits if_splits)

lemma tokenizer_fetch_measure:
  assumes "tokenizer_fetch t = (c, t1)" and "c \<noteq> EOF_char \<or> tstate t = TOKENIZER_BUFFERED"
  shows "2 * length (reader t1) + 1 \<le> tokenizer_measure t \<and> (tstate t \<noteq> TOKENIZER_BUFFERED \<longrightarrow> tstate t1 = tstate t)"
  using assms
  by (cases "reader t") (auto simp: tokenizer_fetch_def tokenizer_measure_def split: if_splits)

function tokenizer_loop :: "tokenizer \<Rightarrow> (token \<times> tokenizer) result" where
  "tokenizer_loop t =
     (case tokenizer_char (snd (tokenizer_fetch t)) (fst (tokenizer_fetch t)) of
        Return r \<Rightarrow> r
      | Continue t2 \<Rightarrow> tokenizer_loop t2)"
  by pat_completeness auto
termination
proof (relation "measure tokenizer_measure")
  show "wf (measure tokenizer_measure)" by simp
next
  fix t :: tokenizer and t2 :: tokenizer
  assume st: "tokenizer_char (snd (tokenizer_fetch t)) (fst (tokenizer_fetch t)) = Continue t2"
  obtain c t1 where f: "tokenizer_fetch t = (c, t1)" by (cases "tokenizer_fetch t")
  from st f have c: "tokenizer_char t1 c = Continue t2" by simp
  from tokenizer_char_Continue [OF c]
  have k: "c \<noteq> EOF_char" "reader t2 = reader t1" "tstate t2 \<noteq> TOKENIZER_BUFFERED" by simp_all
  from tokenizer_fetch_measure [OF f] k(1)
  have "2 * length (reader t1) + 1 \<le> tokenizer_measure t" by simp
  with k show "(t2, t) \<in> measure tokenizer_measure"
    by (simp add: tokenizer_measure_def)
qed

declare tokenizer_loop.simps [simp del]

definition tokenizer_next :: "tokenizer \<Rightarrow> (token \<times> tokenizer) result" where
  "tokenizer_next t =
     (if tstate t = TOKENIZER_EOF then Ok (TOKEN_EOF, t) else tokenizer_loop t)"

section \<open>The parser (parser.c)\<close>

text \<open>
  \<^verbatim>\<open>atoi\<close> of the C library: white space, an optional sign, then decimal digits up to the
  first other byte. It is \<^verbatim>\<open>strtol\<close> narrowed to \<^verbatim>\<open>int\<close>: the number read is held
  within the range of a 64-bit \<^verbatim>\<open>long\<close> and then cut to its low 32 bits, read as a signed
  number. The parser keeps the result in an \<^verbatim>\<open>unsigned int\<close> and stores it in an
  \<^verbatim>\<open>int\<close> field, which gives the same 32-bit value back.
\<close>

definition is_digit :: "char \<Rightarrow> bool" where
  "is_digit c = (48 \<le> (of_char c :: nat) \<and> (of_char c :: nat) \<le> 57)"

definition is_space :: "char \<Rightarrow> bool" where
  "is_space c = (c = CHR '' '' \<or> (9 \<le> (of_char c :: nat) \<and> (of_char c :: nat) \<le> 13))"

fun atoi_digits :: "int \<Rightarrow> string \<Rightarrow> int" where
  "atoi_digits acc [] = acc"
| "atoi_digits acc (c # cs) =
     (if is_digit c then atoi_digits (10 * acc + (int (of_char c) - 48)) cs else acc)"

definition strtol :: "string \<Rightarrow> int" where
  "strtol s =
     (let v = (case dropWhile is_space s of
                 [] \<Rightarrow> 0
               | c # cs \<Rightarrow>
                   if c = CHR ''-'' then - atoi_digits 0 cs
                   else if c = CHR ''+'' then atoi_digits 0 cs
                   else atoi_digits 0 (c # cs))
      in max (- 9223372036854775808) (min 9223372036854775807 v))"

definition int_of_long :: "int \<Rightarrow> int" where
  "int_of_long v = (v + 2147483648) mod 4294967296 - 2147483648"

definition atoi :: "string \<Rightarrow> int" where
  "atoi s = int_of_long (strtol s)"

lemma atoi_examples:
  "atoi ''2'' = 2" "atoi ''-1'' = - 1" "atoi ''12x'' = 12" "atoi ''x'' = 0"
  "atoi ''4294967297'' = 1" "atoi ''2147483648'' = - 2147483648"
  "atoi ''99999999999999999999'' = - 1"
  by (simp_all add: atoi_def strtol_def int_of_long_def is_space_def is_digit_def)

datatype parser_state = PARSER_NEUTRAL | PARSER_ERROR | PARSER_EOF

text \<open>A line written to the error stream: the line number printed and the message after it.\<close>

type_synonym diag = "32 word \<times> string"

text \<open>
  \<^verbatim>\<open>struct parser\<close>: \<open>tokens\<close> holds the first \<^verbatim>\<open>ntokens\<close> entries of the array,
  so \<^verbatim>\<open>ntokens\<close> is its length; \<open>line\<close> is an \<^verbatim>\<open>unsigned int\<close>; \<open>perr\<close> collects
  what the parser has written to the error stream.
\<close>

record parser =
  pstate :: parser_state
  ptokenizer :: tokenizer
  tokens :: "token list"
  line :: "32 word"
  perr :: "diag list"

definition MAX_TOKENS :: nat where
  "MAX_TOKENS = 7"

definition parser_create :: "tokenizer \<Rightarrow> parser" where
  "parser_create tk =
     \<lparr>pstate = PARSER_NEUTRAL, ptokenizer = tk, tokens = [], line = 1, perr = []\<rparr>"

definition parser_truncate :: "parser \<Rightarrow> parser" where
  "parser_truncate p = p\<lparr>tokens := []\<rparr>"

text \<open>The message to the error stream followed by \<^verbatim>\<open>return element_create(ELEMENT_ERROR)\<close>.\<close>

definition parser_complain :: "parser \<Rightarrow> string \<Rightarrow> parser" where
  "parser_complain p msg = p\<lparr>perr := perr p @ [(line p, msg)]\<rparr>"

definition match_error :: "parser \<Rightarrow> string \<Rightarrow> (element option \<times> parser) result" where
  "match_error p msg = Ok (Some ELEMENT_ERROR, parser_complain p msg)"

text \<open>
  The second half of \<^verbatim>\<open>parser_match\<close>, reached by the \<^verbatim>\<open>break\<close>s of its first
  \<^verbatim>\<open>switch\<close>: a redirection is being matched, the token at \<open>offset\<close> is
  \<^verbatim>\<open><\<close> or \<^verbatim>\<open>>\<close> and \<open>fd\<close> is the descriptor redirected. \<open>None\<close> is the null
  pointer: no complete pattern yet.
\<close>

definition parser_match_redir ::
  "parser \<Rightarrow> nat \<Rightarrow> int \<Rightarrow> (element option \<times> parser) result" where
  "parser_match_redir p offset fd =
     (let ts = tokens p; n = length ts in
      if \<not> offset < n then Aborted
      else if offset = n - 1 then Ok (None, p)
      else if ts ! (offset + 1) = TOKEN_GT then
        (if ts ! offset \<noteq> TOKEN_GT then match_error p ''expected >>''
         else if offset = n - 2 then Ok (None, p)
         else (case ts ! (offset + 2) of
                 TOKEN_STRING s \<Rightarrow> Ok (Some (ELEMENT_REDIR_FILE_APPEND fd s), p)
               | _ \<Rightarrow> match_error p ''expected >> string''))
      else
        (case ts ! (offset + 1) of
           TOKEN_STRING s \<Rightarrow>
             (if offset \<noteq> n - 2 then Aborted
              else Ok (Some (if ts ! offset = TOKEN_LT then ELEMENT_REDIR_FILE_IN fd s
                             else ELEMENT_REDIR_FILE_OUT fd s), p))
         | TOKEN_CB_OPEN \<Rightarrow>
             (if n < offset + 3 then Ok (None, p)
              else (case ts ! (offset + 2) of
                      TOKEN_STRING s \<Rightarrow>
                        (if n < offset + 4 then Ok (None, p)
                         else if ts ! (offset + 3) \<noteq> TOKEN_CB_CLOSE then
                           match_error p (''expected a '' @ [CHR 0x27] @ ''}'' @ [CHR 0x27])
                         else Ok (Some (if ts ! offset = TOKEN_LT
                                        then ELEMENT_REDIR_FD_IN fd (atoi s)
                                        else ELEMENT_REDIR_FD_OUT fd (atoi s)), p))
                    | _ \<Rightarrow> match_error p ''expected a file descriptor''))
         | _ \<Rightarrow> match_error p ''expected file or fd''))"

definition parser_match :: "parser \<Rightarrow> (element option \<times> parser) result" where
  "parser_match p =
     (let ts = tokens p; n = length ts in
      if \<not> 0 < n then Aborted
      else
        (case ts ! 0 of
           TOKEN_STRING s \<Rightarrow>
             (if n \<noteq> 1 then Aborted else Ok (Some (ELEMENT_ARG s), p))
         | TOKEN_LT \<Rightarrow> parser_match_redir p 0 0
         | TOKEN_GT \<Rightarrow> parser_match_redir p 0 1
         | TOKEN_CB_OPEN \<Rightarrow>
             (if n < 2 then Ok (None, p)
              else (case ts ! 1 of
                      TOKEN_STRING s \<Rightarrow>
                        (if n < 3 then Ok (None, p)
                         else if ts ! 2 \<noteq> TOKEN_CB_CLOSE then
                           match_error p (''expected a '' @ [CHR 0x27] @ ''}'' @ [CHR 0x27])
                         else if n < 4 then Ok (None, p)
                         else if ts ! 3 = TOKEN_LT \<or> ts ! 3 = TOKEN_GT then
                           parser_match_redir p 3 (atoi s)
                         else match_error p ''expected a redirection character'')
                    | _ \<Rightarrow> match_error p ''expected a file descriptor''))
         | _ \<Rightarrow> match_error p ''unexpected token''))"

text \<open>
  The end of the default case of \<^verbatim>\<open>parser_next\<close>, after \<^verbatim>\<open>parser_match\<close> has returned
  \<open>elt\<close> on the window of \<open>p\<close>: an element is returned, a window at the bound is an
  error that puts the parser into the state \<^verbatim>\<open>PARSER_ERROR\<close>, and otherwise the loop goes
  round again.
\<close>

definition parser_matched ::
  "element option \<Rightarrow> parser \<Rightarrow> ((element \<times> parser) result, parser) step" where
  "parser_matched elt p =
     (case elt of
        Some e \<Rightarrow> Return (Ok (e, parser_truncate p))
      | None \<Rightarrow>
          (if length (tokens p) = MAX_TOKENS then
             Return (Ok (ELEMENT_ERROR,
                         (parser_truncate (parser_complain p ''pattern too long''))
                           \<lparr>pstate := PARSER_ERROR\<rparr>))
           else Continue p))"

text \<open>
  \<^verbatim>\<open>parser_next\<close>: one round of the loop fetches a token and switches on the parser's
  state. The loop has no bound of its own, so the function is partial: \<open>None\<close> is a call
  that never returns, \<open>Some Aborted\<close> one that a failed assertion ends.
\<close>

partial_function (option) parser_next :: "parser \<Rightarrow> (element \<times> parser) result option" where
  "parser_next p =
     (case tokenizer_next (ptokenizer p) of
        Aborted \<Rightarrow> Some Aborted
      | Ok (token, tk) \<Rightarrow>
          (let p1 = p\<lparr>ptokenizer := tk\<rparr> in
           case pstate p1 of
             PARSER_NEUTRAL \<Rightarrow>
               (case token of
                  TOKEN_EOF \<Rightarrow>
                    (if 0 < length (tokens p1) then
                       Some (Ok (ELEMENT_ERROR,
                                 parser_truncate (parser_complain p1 ''unrecognized eof'')))
                     else Some (Ok (ELEMENT_EOF, p1)))
                | TOKEN_EOLN \<Rightarrow>
                    (let p2 = p1\<lparr>line := line p1 + 1\<rparr> in
                     if length (tokens p2) = 0 then Some (Ok (ELEMENT_EOLN, p2))
                     else parser_next p2)
                | TOKEN_SEMI \<Rightarrow>
                    (if length (tokens p1) = 0 then Some (Ok (ELEMENT_SEMI, p1))
                     else Some (Ok (ELEMENT_ERROR,
                                    parser_truncate (parser_complain p1 ''unrecognized semicolon''))))
                | TOKEN_AMPERSAND \<Rightarrow>
                    (if length (tokens p1) = 0 then Some (Ok (ELEMENT_BACKGROUND, p1))
                     else Some (Ok (ELEMENT_ERROR,
                                    parser_truncate (parser_complain p1 ''unrecognized ampersand''))))
                | _ \<Rightarrow>
                    (if \<not> length (tokens p1) < MAX_TOKENS then Some Aborted
                     else
                       (case parser_match (p1\<lparr>tokens := tokens p1 @ [token]\<rparr>) of
                          Aborted \<Rightarrow> Some Aborted
                        | Ok (elt, p2) \<Rightarrow>
                            (case parser_matched elt p2 of
                               Return r \<Rightarrow> Some r
                             | Continue p3 \<Rightarrow> parser_next p3))))
           | PARSER_ERROR \<Rightarrow>
               (if token = TOKEN_EOLN then
                  parser_next ((parser_truncate p1)\<lparr>pstate := PARSER_NEUTRAL\<rparr>)
                else parser_next p1)
           | PARSER_EOF \<Rightarrow>
               (if tokens p1 \<noteq> [] then Some Aborted else Some (Ok (ELEMENT_EOF, p1)))))"

declare parser_next.simps [code]

section \<open>The command builder (shall.c)\<close>

text \<open>
  \<^verbatim>\<open>struct command\<close>: \<open>argv\<close> holds the \<^verbatim>\<open>argc\<close> pointers collected so far (\<open>None\<close> is
  the null pointer that ends the vector), \<open>redirs\<close> the \<^verbatim>\<open>nredirs\<close> redirection elements.
\<close>

record command =
  argv :: "string option list"
  redirs :: "element list"

text \<open>
  What \<^verbatim>\<open>interpret\<close> does besides parsing, in order: a prompt, the notice at the end of an
  interactive input, and a call \<^verbatim>\<open>perform(command, background)\<close> with the command as it is
  at the call. The trace lists the calls the loop makes when every call of \<^verbatim>\<open>perform\<close>
  returns; a call that ends the process (\<^verbatim>\<open>exit\<close>, \<^verbatim>\<open>exec\<close>) cuts the run short after
  that event.
\<close>

datatype event =
    Prompt
  | Eof_notice
  | Call_perform command bool

definition arg_append :: "command \<Rightarrow> string option \<Rightarrow> command" where
  "arg_append c a = c\<lparr>argv := argv c @ [a]\<rparr>"

definition redir_append :: "command \<Rightarrow> element \<Rightarrow> command" where
  "redir_append c e = c\<lparr>redirs := redirs c @ [e]\<rparr>"

definition display_prompt :: "bool \<Rightarrow> event list" where
  "display_prompt interactive = (if interactive then [Prompt] else [])"

definition gotline :: "command \<Rightarrow> bool \<Rightarrow> event list \<times> command" where
  "gotline c background =
     ((if 0 < length (argv c) then [Call_perform (arg_append c None) background] else []),
      c\<lparr>argv := [], redirs := []\<rparr>)"

text \<open>
  The \<^verbatim>\<open>while (more)\<close> loop of \<^verbatim>\<open>interpret\<close>, with the events so far in \<open>tr\<close>. It ends at
  the element \<^verbatim>\<open>ELEMENT_EOF\<close> only, so it is partial like \<^verbatim>\<open>parser_next\<close>.
\<close>

partial_function (option) interpret_loop ::
  "parser \<Rightarrow> command \<Rightarrow> bool \<Rightarrow> event list \<Rightarrow> event list result option" where
  "interpret_loop p c interactive tr =
     (case parser_next p of
        None \<Rightarrow> None
      | Some Aborted \<Rightarrow> Some Aborted
      | Some (Ok (elt, p1)) \<Rightarrow>
          (case elt of
             ELEMENT_ARG s \<Rightarrow> interpret_loop p1 (arg_append c (Some s)) interactive tr
           | ELEMENT_REDIR_FILE_IN fd name \<Rightarrow> interpret_loop p1 (redir_append c elt) interactive tr
           | ELEMENT_REDIR_FILE_OUT fd name \<Rightarrow> interpret_loop p1 (redir_append c elt) interactive tr
           | ELEMENT_REDIR_FILE_APPEND fd name \<Rightarrow>
               interpret_loop p1 (redir_append c elt) interactive tr
           | ELEMENT_REDIR_FD_IN fd1 fd2 \<Rightarrow> interpret_loop p1 (redir_append c elt) interactive tr
           | ELEMENT_REDIR_FD_OUT fd1 fd2 \<Rightarrow> interpret_loop p1 (redir_append c elt) interactive tr
           | ELEMENT_EOLN \<Rightarrow>
               interpret_loop p1 (snd (gotline c False)) interactive
                 (tr @ fst (gotline c False) @ display_prompt interactive)
           | ELEMENT_SEMI \<Rightarrow>
               interpret_loop p1 (snd (gotline c False)) interactive (tr @ fst (gotline c False))
           | ELEMENT_BACKGROUND \<Rightarrow>
               interpret_loop p1 (snd (gotline c True)) interactive (tr @ fst (gotline c True))
           | ELEMENT_ERROR \<Rightarrow> interpret_loop p1 c interactive (tr @ display_prompt interactive)
           | ELEMENT_EOF \<Rightarrow>
               Some (Ok (tr @ (if interactive then [Eof_notice] else [])
                            @ fst (gotline c False)))))"

declare interpret_loop.simps [code]

text \<open>\<^verbatim>\<open>interpret\<close> (the name is an Isabelle keyword, hence the suffix).\<close>

definition interpret_input :: "char list \<Rightarrow> bool \<Rightarrow> event list result option" where
  "interpret_input rd interactive =
     interpret_loop (parser_create (tokenizer_create rd)) \<lparr>argv = [], redirs = []\<rparr>
       interactive (display_prompt interactive)"

section \<open>The executor (exec.c)\<close>

text \<open>
  The executor acts through system calls. A run is the list of the calls made, in order,
  and how it ends. What the system answers is not the program's to decide: the record
  \<open>os\<close> gives the value each call returns.
\<close>

datatype open_flag = O_RDONLY | O_WRONLY | O_CREAT | O_TRUNC | O_APPEND

text \<open>The status \<^verbatim>\<open>wait\<close> stores, as the macros \<^verbatim>\<open>WIFEXITED\<close> and \<^verbatim>\<open>WIFSIGNALED\<close> read it.\<close>

datatype wstatus = Exited_with nat | Killed_by nat | Stopped

datatype call =
    Sys_open string "open_flag set" nat
  | Sys_dup2 int int
  | Sys_close int
  | Sys_exit int
  | Sys_fork
  | Sys_wait
  | Sys_signal_ignore
  | Sys_getpid
  | Write_stdout string "int list"
  | Write_stderr string
  | Do_exec "string option list"

text \<open>
  How a run ends: the function returns to its caller, the process is gone (\<^verbatim>\<open>_exit\<close>, or
  \<^verbatim>\<open>do_exec\<close>, which replaces the program or exits), or an assertion has failed.
\<close>

datatype fate = Returns | Process_ends | Assertion_fails

record os =
  open_result :: "string \<Rightarrow> open_flag set \<Rightarrow> nat \<Rightarrow> int"
  dup2_result :: "int \<Rightarrow> int \<Rightarrow> int"
  fork_result :: int
  wait_result :: "int \<times> wstatus"
  getpid_result :: int

definition redir_fd :: "os \<Rightarrow> int \<Rightarrow> int \<Rightarrow> call list \<times> fate" where
  "redir_fd sys fd1 fd2 =
     (let newfd = dup2_result sys fd2 fd1
      in if newfd < 0
         then ([Write_stdout ''REDIRECT %d TO %d'' [fd1, fd2], Sys_dup2 fd2 fd1, Sys_exit 1],
               Process_ends)
         else ([Write_stdout ''REDIRECT %d TO %d'' [fd1, fd2], Sys_dup2 fd2 fd1], Returns))"

text \<open>The creation mode is the octal 0644.\<close>

definition redir_file :: "os \<Rightarrow> string \<Rightarrow> int \<Rightarrow> open_flag set \<Rightarrow> call list \<times> fate" where
  "redir_file sys name fd flags =
     (let newfd = open_result sys name flags 420
      in case redir_fd sys fd newfd of
           (tr, Returns) \<Rightarrow> (Sys_open name flags 420 # tr @ [Sys_close newfd], Returns)
         | (tr, f) \<Rightarrow> (Sys_open name flags 420 # tr, f))"

text \<open>The body of the loop of \<^verbatim>\<open>redir\<close>: the \<^verbatim>\<open>switch\<close> on the element's type.\<close>

definition redir_element :: "os \<Rightarrow> element \<Rightarrow> call list \<times> fate" where
  "redir_element sys elt =
     (case elt of
        ELEMENT_REDIR_FILE_IN fd name \<Rightarrow> redir_file sys name fd {O_RDONLY}
      | ELEMENT_REDIR_FILE_OUT fd name \<Rightarrow> redir_file sys name fd {O_WRONLY, O_CREAT, O_TRUNC}
      | ELEMENT_REDIR_FILE_APPEND fd name \<Rightarrow> redir_file sys name fd {O_WRONLY, O_APPEND}
      | ELEMENT_REDIR_FD_IN fd1 fd2 \<Rightarrow> redir_fd sys fd1 fd2
      | ELEMENT_REDIR_FD_OUT fd1 fd2 \<Rightarrow> redir_fd sys fd1 fd2
      | _ \<Rightarrow> ([], Assertion_fails))"

fun redir_loop :: "os \<Rightarrow> element list \<Rightarrow> call list \<times> fate" where
  "redir_loop sys [] = ([], Returns)"
| "redir_loop sys (elt # elts) =
     (case redir_element sys elt of
        (tr, Returns) \<Rightarrow> (tr @ fst (redir_loop sys elts), snd (redir_loop sys elts))
      | (tr, f) \<Rightarrow> (tr, f))"

definition redir :: "os \<Rightarrow> command \<Rightarrow> call list \<times> fate" where
  "redir sys c = redir_loop sys (redirs c)"

text \<open>
  \<^verbatim>\<open>do_exec\<close> never returns: it replaces the program, or reports the failure and exits.
  Its search along the path is one call here.
\<close>

definition do_exec :: "string option list \<Rightarrow> call list \<times> fate" where
  "do_exec av = ([Do_exec av], Process_ends)"

definition execute :: "command \<Rightarrow> call list \<times> fate" where
  "execute c = do_exec (argv c)"

text \<open>
  \<^verbatim>\<open>spawn\<close>, in the process that \<^verbatim>\<open>fork\<close> returns to: the child when it returned 0, the
  shell otherwise.
\<close>

definition spawn :: "os \<Rightarrow> command \<Rightarrow> bool \<Rightarrow> call list \<times> fate" where
  "spawn sys c background =
     (let pid = fork_result sys in
      if pid < 0 then ([Sys_fork, Write_stderr ''fork failed''], Returns)
      else if pid = 0 then
        (let start = Sys_fork #
               (if background
                then [Sys_signal_ignore, Sys_getpid,
                      Write_stdout ''process %i running in background:'' [getpid_result sys]]
                else [])
         in case redir sys c of
              (tr, Returns) \<Rightarrow> (start @ tr @ fst (execute c), snd (execute c))
            | (tr, f) \<Rightarrow> (start @ tr, f))
      else if \<not> background then
        (let endpid = fst (wait_result sys); status = snd (wait_result sys)
         in ([Sys_fork, Sys_wait]
               @ (case status of
                    Exited_with n \<Rightarrow>
                      [Write_stdout ''process:%d terminated with status %d'' [endpid, int n]]
                  | _ \<Rightarrow> [])
               @ (case status of
                    Killed_by n \<Rightarrow>
                      [Write_stdout ''process:%d terminated with signal %d'' [endpid, int n]]
                  | _ \<Rightarrow> []),
             Returns))
      else ([Sys_fork], Returns))"

text \<open>\<^verbatim>\<open>exec\<close>, the builtin: the redirections, then \<^verbatim>\<open>do_exec\<close> when a command is named.\<close>

definition exec :: "os \<Rightarrow> command \<Rightarrow> call list \<times> fate" where
  "exec sys c =
     (case redir sys c of
        (tr, Returns) \<Rightarrow>
          (if 2 < length (argv c) then (tr @ fst (do_exec (tl (argv c))), snd (do_exec (tl (argv c))))
           else (tr, Returns))
      | (tr, f) \<Rightarrow> (tr, f))"

text \<open>
  \<^verbatim>\<open>builtin_check\<close>: \<open>None\<close> when it returns 1, and the message it prints when it
  returns 0.
\<close>

definition builtin_check :: "command \<Rightarrow> bool \<Rightarrow> string option" where
  "builtin_check c background =
     (if background then Some (''can'' @ [CHR 0x27] @ ''t run builtin commands in background'')
      else if 0 < length (redirs c) then
        Some (''can'' @ [CHR 0x27] @ ''t redirect I/O for builtin commands'')
      else None)"

text \<open>
  What \<^verbatim>\<open>perform\<close> decides: a message and nothing else, or the function it hands the
  command to. Comparing \<^verbatim>\<open>argv[0]\<close> when it is the null pointer, or absent, is a fault.
\<close>

datatype action =
    Refuse string
  | Run_cd
  | Run_source
  | Run_do_exit
  | Run_exec
  | Run_spawn
  | Fault

definition perform :: "command \<Rightarrow> bool \<Rightarrow> action" where
  "perform c background =
     (case argv c of
        Some name # rest \<Rightarrow>
          (if name = ''cd'' then
             (case builtin_check c background of None \<Rightarrow> Run_cd | Some msg \<Rightarrow> Refuse msg)
           else if name = ''source'' then
             (case builtin_check c background of None \<Rightarrow> Run_source | Some msg \<Rightarrow> Refuse msg)
           else if name = ''exit'' then
             (case builtin_check c background of None \<Rightarrow> Run_do_exit | Some msg \<Rightarrow> Refuse msg)
           else if name = ''exec'' then
             (if background then Refuse (''can'' @ [CHR 0x27] @ ''t exec in background'')
              else Run_exec)
           else Run_spawn)
      | _ \<Rightarrow> Fault)"

section \<open>Quoted and escaped text\<close>

text \<open>
  The inputs of the round-trip property. A piece is a plain byte, a byte after a backslash,
  or a run of bytes between single or between double quotes; \<open>written\<close> is the piece as
  it stands in the input and \<open>meant\<close> the text it stands for. Printable bytes are those from
  the space to the tilde; \<open>special\<close> are the printable bytes that the tokenizer does not
  append to the text when they stand unquoted. The separators are the bytes that
  \<^verbatim>\<open>tokenizer_next\<close> skips between tokens.
\<close>

datatype piece = Plain char | Escaped char | Single_quoted string | Double_quoted string

fun written :: "piece \<Rightarrow> string" where
  "written (Plain c) = [c]"
| "written (Escaped c) = [CHR 0x5C, c]"
| "written (Single_quoted s) = CHR 0x27 # s @ [CHR 0x27]"
| "written (Double_quoted s) = CHR 0x22 # s @ [CHR 0x22]"

fun meant :: "piece \<Rightarrow> string" where
  "meant (Plain c) = [c]"
| "meant (Escaped c) = [c]"
| "meant (Single_quoted s) = s"
| "meant (Double_quoted s) = s"

definition printable :: "char \<Rightarrow> bool" where
  "printable c = (32 \<le> (of_char c :: nat) \<and> (of_char c :: nat) \<le> 126)"

definition special :: "char \<Rightarrow> bool" where
  "special c = (c \<in> set ''<>&{};'' \<or> c = CHR '' '' \<or> c = CHR 0x5C \<or> c = CHR 0x27 \<or> c = CHR 0x22)"

fun well_formed :: "piece \<Rightarrow> bool" where
  "well_formed (Plain c) = (printable c \<and> \<not> special c)"
| "well_formed (Escaped c) = printable c"
| "well_formed (Single_quoted s) = list_all (\<lambda>c. printable c \<and> c \<noteq> CHR 0x27) s"
| "well_formed (Double_quoted s) = list_all (\<lambda>c. printable c \<and> c \<noteq> CHR 0x22) s"

definition separator :: "char \<Rightarrow> bool" where
  "separator c = (c = CHR '' '' \<or> c = CHR 0x09 \<or> c = CHR 0x0D \<or> c = CHR 0x00)"

section \<open>The tokenizer always returns a token\<close>

text \<open>
  A potential that every call of \<^verbatim>\<open>tokenizer_next\<close> lowers unless it returns the end-of-input
  token: three for every byte still to read, two for a buffered byte, one for text being
  collected.
\<close>

definition tokenizer_potential :: "tokenizer \<Rightarrow> nat" where
  "tokenizer_potential t =
     3 * length (reader t) + (if tstate t = TOKENIZER_BUFFERED then 2 else 0)
       + (if tstring t \<noteq> None then 1 else 0)"

definition tokenizer_left :: "tokenizer \<Rightarrow> nat" where
  "tokenizer_left t = (if tstate t = TOKENIZER_EOF then 0 else tokenizer_potential t + 1)"

lemma tokenizer_fetch_potential:
  assumes "tokenizer_fetch t = (c, t1)" and "tstate t \<noteq> TOKENIZER_EOF"
  shows "tstate t1 \<noteq> TOKENIZER_EOF \<and> tstate t1 \<noteq> TOKENIZER_BUFFERED
         \<and> tokenizer_potential t1 \<le> tokenizer_potential t
         \<and> (c \<noteq> EOF_char \<longrightarrow> tokenizer_potential t1 + 2 \<le> tokenizer_potential t)"
  using assms
  by (cases "reader t") (auto simp: tokenizer_fetch_def tokenizer_potential_def split: if_splits)

lemma tokenizer_char_Continue_potential:
  assumes "tokenizer_char t c = Continue t2"
  shows "tokenizer_potential t2 \<le> tokenizer_potential t + 1"
  using assms
  by (auto simp: tokenizer_char_def tokenizer_append_def tokenizer_potential_def
           split: tokenizer_state.splits if_splits)

definition returns_token ::
  "tokenizer \<Rightarrow> char \<Rightarrow> (token \<times> tokenizer) result \<Rightarrow> bool" where
  "returns_token t c r =
     (\<exists>tok t'. r = Ok (tok, t') \<and>
        (if tok = TOKEN_EOF then tstate t' = TOKENIZER_EOF
         else tstate t' \<noteq> TOKENIZER_EOF \<and>
              (if c = EOF_char then tokenizer_potential t' < tokenizer_potential t
               else tokenizer_potential t' \<le> tokenizer_potential t + 1)))"

lemma returns_token_string:
  assumes "tstring t \<noteq> None" and "tstate t \<noteq> TOKENIZER_BUFFERED"
  shows "returns_token t c (Ok (tokenizer_string t))"
  using assms
  by (simp add: returns_token_def tokenizer_string_def tokenizer_append_def
                tokenizer_potential_def Let_def)

lemma returns_token_buffer:
  assumes "tt \<noteq> TOKEN_EOF" and "c \<noteq> EOF_char"
    and "tstate t \<noteq> TOKENIZER_EOF" and "tstate t \<noteq> TOKENIZER_BUFFERED"
  shows "returns_token t c (Ok (tokenizer_buffer t c tt))"
  using assms
  by (simp add: returns_token_def tokenizer_buffer_def tokenizer_string_def
                tokenizer_append_def tokenizer_potential_def Let_def)

lemma returns_token_eof:
  assumes "tstate t \<noteq> TOKENIZER_EOF" and "tstate t \<noteq> TOKENIZER_BUFFERED"
  shows "returns_token t EOF_char (tokenizer_eof t)"
  using assms
  by (simp add: returns_token_def tokenizer_eof_def tokenizer_string_def
                tokenizer_append_def tokenizer_potential_def Let_def)

lemma tokenizer_char_Return:
  assumes "tokenizer_char t c = Return r"
    and "tstate t \<noteq> TOKENIZER_EOF" and "tstate t \<noteq> TOKENIZER_BUFFERED"
  shows "returns_token t c r"
proof (cases "c = EOF_char")
  case True
  with assms have "r = tokenizer_eof t"
    by (simp add: tokenizer_char_def split: tokenizer_state.splits)
  with True returns_token_eof [OF assms(2,3)] show ?thesis by simp
next
  case False
  note b = returns_token_buffer [OF _ False assms(2,3)]
  show ?thesis
  proof (cases "tstate t = TOKENIZER_NEUTRAL")
    case True
    with assms(1) False
    have "r = Ok (tokenizer_buffer t c TOKEN_LT) \<or> r = Ok (tokenizer_buffer t c TOKEN_GT)
        \<or> r = Ok (tokenizer_buffer t c TOKEN_AMPERSAND) \<or> r = Ok (tokenizer_buffer t c TOKEN_CB_OPEN)
        \<or> r = Ok (tokenizer_buffer t c TOKEN_CB_CLOSE) \<or> r = Ok (tokenizer_buffer t c TOKEN_SEMI)
        \<or> r = Ok (tokenizer_buffer t c TOKEN_EOLN)
        \<or> (tstring t \<noteq> None \<and> r = Ok (tokenizer_string t))"
      by (simp add: tokenizer_char_def split: if_splits)
    then show ?thesis
      using b returns_token_string [OF _ assms(3)] by (elim disjE conjE) simp_all
  next
    case False
    with assms \<open>c \<noteq> EOF_char\<close> show ?thesis
      by (simp add: tokenizer_char_def split: tokenizer_state.splits if_splits)
  qed
qed

lemma tokenizer_loop_progress:
  "tstate t \<noteq> TOKENIZER_EOF \<Longrightarrow>
   \<exists>tok t'. tokenizer_loop t = Ok (tok, t') \<and>
     (if tok = TOKEN_EOF then tstate t' = TOKENIZER_EOF
      else tstate t' \<noteq> TOKENIZER_EOF \<and> tokenizer_potential t' < tokenizer_potential t)"
proof (induction t rule: tokenizer_loop.induct)
  case (1 t)
  obtain c t1 where f: "tokenizer_fetch t = (c, t1)" by (cases "tokenizer_fetch t")
  note fp = tokenizer_fetch_potential [OF f "1.prems"]
  show ?case
  proof (cases "tokenizer_char t1 c")
    case (Return r)
    from tokenizer_char_Return [OF Return] fp
    obtain tok t' where r: "r = Ok (tok, t')"
      and p: "if tok = TOKEN_EOF then tstate t' = TOKENIZER_EOF
            else tstate t' \<noteq> TOKENIZER_EOF \<and>
                 (if c = EOF_char then tokenizer_potential t' < tokenizer_potential t1
                  else tokenizer_potential t' \<le> tokenizer_potential t1 + 1)"
      unfolding returns_token_def by blast
    have "tokenizer_loop t = Ok (tok, t')"
      using f Return r by (subst tokenizer_loop.simps) simp
    moreover have "if tok = TOKEN_EOF then tstate t' = TOKENIZER_EOF
      else tstate t' \<noteq> TOKENIZER_EOF \<and> tokenizer_potential t' < tokenizer_potential t"
      using p fp by (auto split: if_splits)
    ultimately show ?thesis by blast
  next
    case (Continue t2)
    from tokenizer_char_Continue [OF Continue]
    have k: "c \<noteq> EOF_char" "tstate t2 \<noteq> TOKENIZER_EOF" by simp_all
    from "1.IH" [of t2] f Continue k(2)
    obtain tok t' where r: "tokenizer_loop t2 = Ok (tok, t')"
      and p: "if tok = TOKEN_EOF then tstate t' = TOKENIZER_EOF
      else tstate t' \<noteq> TOKENIZER_EOF \<and> tokenizer_potential t' < tokenizer_potential t2"
      by auto
    have "tokenizer_loop t = Ok (tok, t')"
      using f Continue r by (subst tokenizer_loop.simps) simp
    moreover have "tokenizer_potential t2 < tokenizer_potential t"
      using tokenizer_char_Continue_potential [OF Continue] fp k(1) by simp
    ultimately show ?thesis using p by (auto split: if_splits)
  qed
qed

lemma tokenizer_next_progress:
  "\<exists>tok t'. tokenizer_next t = Ok (tok, t') \<and>
     (if tok = TOKEN_EOF then tstate t' = TOKENIZER_EOF
      else tokenizer_left t' < tokenizer_left t)"
proof (cases "tstate t = TOKENIZER_EOF")
  case True
  then show ?thesis by (simp add: tokenizer_next_def)
next
  case False
  from tokenizer_loop_progress [OF False] False show ?thesis
    by (auto simp: tokenizer_next_def tokenizer_left_def split: if_splits)
qed

section \<open>The window of pending tokens\<close>

text \<open>
  What \<^verbatim>\<open>parser_match\<close> returns depends on the tokens of the window only. A window is
  pending when \<^verbatim>\<open>parser_match\<close> returns the null pointer on it; such a window is short of
  the bound, and with one more token \<^verbatim>\<open>parser_match\<close> fails none of its assertions.
\<close>

lemma match_redir_result:
  assumes "parser_match_redir p offset fd = Ok (r, p')"
  shows "(r = None \<longrightarrow> p' = p \<and> length (tokens p) < offset + 4)
       \<and> (\<forall>e. r = Some e \<longrightarrow> p' = p \<or> (e = ELEMENT_ERROR \<and> (\<exists>msg. p' = parser_complain p msg)))"
  using assms
  by (auto simp: parser_match_redir_def match_error_def Let_def
           split: if_splits token.splits)

lemma parser_match_result:
  assumes "parser_match p = Ok (r, p')"
  shows "(r = None \<longrightarrow> p' = p \<and> length (tokens p) < MAX_TOKENS)
       \<and> (\<forall>e. r = Some e \<longrightarrow> p' = p \<or> (e = ELEMENT_ERROR \<and> (\<exists>msg. p' = parser_complain p msg)))"
proof (cases "tokens p ! 0")
  case TOKEN_LT
  with assms have "parser_match_redir p 0 0 = Ok (r, p')"
    by (simp add: parser_match_def Let_def split: if_splits)
  from match_redir_result [OF this] show ?thesis by (auto simp: MAX_TOKENS_def)
next
  case TOKEN_GT
  with assms have "parser_match_redir p 0 1 = Ok (r, p')"
    by (simp add: parser_match_def Let_def split: if_splits)
  from match_redir_result [OF this] show ?thesis by (auto simp: MAX_TOKENS_def)
next
  case TOKEN_CB_OPEN
  with assms have "(r = None \<and> p' = p \<and> length (tokens p) < 4)
     \<or> (\<exists>s. parser_match_redir p 3 (atoi s) = Ok (r, p'))
     \<or> (r = Some ELEMENT_ERROR \<and> (\<exists>msg. p' = parser_complain p msg))"
    by (auto simp: parser_match_def match_error_def Let_def split: if_splits token.splits)
  then show ?thesis
    using match_redir_result [of p 3 _ r p'] by (auto simp: MAX_TOKENS_def)
qed (use assms in \<open>auto simp: parser_match_def match_error_def Let_def split: if_splits\<close>)

definition match_kind :: "(element option \<times> parser) result \<Rightarrow> element option result" where
  "match_kind r = (case r of Aborted \<Rightarrow> Aborted | Ok (x, _) \<Rightarrow> Ok x)"

definition pending :: "parser \<Rightarrow> bool" where
  "pending p = (match_kind (parser_match p) = Ok None)"

lemma match_kind_simps [simp]:
  "match_kind Aborted = Aborted" "match_kind (Ok (x, q)) = Ok x"
  "match_kind (match_error p msg) = Ok (Some ELEMENT_ERROR)"
  by (simp_all add: match_kind_def match_error_def)

lemma redir_kind_cong:
  assumes "tokens q = tokens p"
  shows "match_kind (parser_match_redir q offset fd) = match_kind (parser_match_redir p offset fd)"
  using assms
  by (simp add: parser_match_redir_def Let_def split: token.split)

lemma match_kind_cong:
  assumes "tokens q = tokens p"
  shows "match_kind (parser_match q) = match_kind (parser_match p)"
  by (simp add: parser_match_def Let_def assms redir_kind_cong [OF assms] split: token.split)

lemma redir_pending_shape:
  assumes "match_kind (parser_match_redir p offset fd) = Ok None"
  shows "length (tokens p) = offset + 1
       \<or> (length (tokens p) = offset + 2 \<and> tokens p ! (offset + 1) = TOKEN_GT
            \<and> tokens p ! offset = TOKEN_GT)
       \<or> (length (tokens p) = offset + 2 \<and> tokens p ! (offset + 1) = TOKEN_CB_OPEN)
       \<or> (length (tokens p) = offset + 3 \<and> tokens p ! (offset + 1) = TOKEN_CB_OPEN
            \<and> (\<exists>s. tokens p ! (offset + 2) = TOKEN_STRING s))"
  using assms
  by (simp add: parser_match_redir_def Let_def split: if_splits token.splits) arith+

lemma pending_cong: "tokens q = tokens p \<Longrightarrow> pending q = pending p"
  using match_kind_cong [of q p] by (simp add: pending_def)

lemma redir_extend:
  assumes "match_kind (parser_match_redir p offset fd) = Ok None"
  shows "match_kind (parser_match_redir (p\<lparr>tokens := tokens p @ [tok]\<rparr>) offset fd') \<noteq> Aborted"
  using redir_pending_shape [OF assms]
  by (elim disjE conjE exE)
     (simp_all add: parser_match_redir_def nth_append Let_def split: token.split)

lemma redir_fresh:
  "length (tokens p) = Suc offset \<Longrightarrow> match_kind (parser_match_redir p offset fd) = Ok None"
  by (simp add: parser_match_redir_def Let_def)

lemma pending_shape:
  assumes "pending p"
  shows "0 < length (tokens p) \<and>
      ((tokens p ! 0 = TOKEN_LT \<and> match_kind (parser_match_redir p 0 0) = Ok None)
     \<or> (tokens p ! 0 = TOKEN_GT \<and> match_kind (parser_match_redir p 0 1) = Ok None)
     \<or> (tokens p ! 0 = TOKEN_CB_OPEN \<and> length (tokens p) < 2)
     \<or> (tokens p ! 0 = TOKEN_CB_OPEN \<and> 2 \<le> length (tokens p) \<and> length (tokens p) < 3
          \<and> (\<exists>s. tokens p ! 1 = TOKEN_STRING s))
     \<or> (tokens p ! 0 = TOKEN_CB_OPEN \<and> 3 \<le> length (tokens p) \<and> length (tokens p) < 4
          \<and> (\<exists>s. tokens p ! 1 = TOKEN_STRING s)
          \<and> tokens p ! 2 = TOKEN_CB_CLOSE)
     \<or> (tokens p ! 0 = TOKEN_CB_OPEN \<and> 4 \<le> length (tokens p) 
          \<and> (\<exists>s. tokens p ! 1 = TOKEN_STRING s \<and> match_kind (parser_match_redir p 3 (atoi s)) = Ok None)
          \<and> tokens p ! 2 = TOKEN_CB_CLOSE \<and> (tokens p ! 3 = TOKEN_LT \<or> tokens p ! 3 = TOKEN_GT)))"
  using assms
  by (simp add: pending_def parser_match_def Let_def split: if_splits token.splits)

lemma match_extend:
  assumes "tokens p = [] \<or> pending p"
  shows "match_kind (parser_match (p\<lparr>tokens := tokens p @ [tok]\<rparr>)) \<noteq> Aborted"
proof (cases "tokens p = []")
  case True
  then show ?thesis
    by (simp add: parser_match_def parser_match_redir_def Let_def split: token.split)
next
  case False
  with assms have "pending p" by simp
  from pending_shape [OF this] show ?thesis
    by (elim disjE conjE exE)
       (simp_all add: parser_match_def nth_append Let_def redir_extend redir_fresh split: token.split)
qed

section \<open>The parser always returns an element\<close>

text \<open>
  From the neutral state with an empty or a pending window, \<^verbatim>\<open>parser_next\<close> returns an
  element and is back in the neutral state with an empty window; unless the element is the
  end of input, the tokenizer has less left to do than before.
\<close>

definition parser_ready :: "parser \<Rightarrow> bool" where
  "parser_ready p = (pstate p = PARSER_NEUTRAL \<and> (tokens p = [] \<or> pending p))"

lemma pending_length:
  assumes "pending p"
  shows "length (tokens p) < MAX_TOKENS"
proof -
  from assms obtain q where "parser_match p = Ok (None, q)"
    by (auto simp: pending_def match_kind_def split: result.splits)
  from parser_match_result [OF this] show ?thesis by simp
qed

lemma parser_next_eof:
  assumes "tokenizer_next (ptokenizer p) = Ok (TOKEN_EOF, tk)" and "pstate p = PARSER_NEUTRAL"
  shows "parser_next p =
     (if tokens p \<noteq> [] then
        Some (Ok (ELEMENT_ERROR,
                  parser_truncate (parser_complain (p\<lparr>ptokenizer := tk\<rparr>) ''unrecognized eof'')))
      else Some (Ok (ELEMENT_EOF, p\<lparr>ptokenizer := tk\<rparr>)))"
  using assms by (subst parser_next.simps) simp

lemma parser_next_eoln:
  assumes "tokenizer_next (ptokenizer p) = Ok (TOKEN_EOLN, tk)" and "pstate p = PARSER_NEUTRAL"
  shows "parser_next p =
     (if tokens p = [] then Some (Ok (ELEMENT_EOLN, p\<lparr>ptokenizer := tk, line := line p + 1\<rparr>))
      else parser_next (p\<lparr>ptokenizer := tk, line := line p + 1\<rparr>))"
  using assms by (subst parser_next.simps) simp

lemma parser_next_semi:
  assumes "tokenizer_next (ptokenizer p) = Ok (TOKEN_SEMI, tk)" and "pstate p = PARSER_NEUTRAL"
  shows "parser_next p =
     (if tokens p = [] then Some (Ok (ELEMENT_SEMI, p\<lparr>ptokenizer := tk\<rparr>))
      else Some (Ok (ELEMENT_ERROR,
             parser_truncate (parser_complain (p\<lparr>ptokenizer := tk\<rparr>) ''unrecognized semicolon''))))"
  using assms by (subst parser_next.simps) simp

lemma parser_next_ampersand:
  assumes "tokenizer_next (ptokenizer p) = Ok (TOKEN_AMPERSAND, tk)" and "pstate p = PARSER_NEUTRAL"
  shows "parser_next p =
     (if tokens p = [] then Some (Ok (ELEMENT_BACKGROUND, p\<lparr>ptokenizer := tk\<rparr>))
      else Some (Ok (ELEMENT_ERROR,
             parser_truncate (parser_complain (p\<lparr>ptokenizer := tk\<rparr>) ''unrecognized ampersand''))))"
  using assms by (subst parser_next.simps) simp

definition window_token :: "token \<Rightarrow> bool" where
  "window_token tok =
     (tok \<noteq> TOKEN_EOF \<and> tok \<noteq> TOKEN_EOLN \<and> tok \<noteq> TOKEN_SEMI \<and> tok \<noteq> TOKEN_AMPERSAND)"

lemma parser_next_window:
  assumes "tokenizer_next (ptokenizer p) = Ok (tok, tk)" and "pstate p = PARSER_NEUTRAL"
    and "window_token tok"
  shows "parser_next p =
     (if \<not> length (tokens p) < MAX_TOKENS then Some Aborted
      else
        (case parser_match (p\<lparr>ptokenizer := tk, tokens := tokens p @ [tok]\<rparr>) of
           Aborted \<Rightarrow> Some Aborted
         | Ok (elt, p2) \<Rightarrow>
             (case parser_matched elt p2 of
                Return r \<Rightarrow> Some r
              | Continue p3 \<Rightarrow> parser_next p3)))"
  using assms by (subst parser_next.simps) (simp add: window_token_def Let_def split: token.split)

definition parser_left :: "parser \<Rightarrow> nat" where
  "parser_left p = tokenizer_left (ptokenizer p)"

definition returns_element :: "parser \<Rightarrow> (element \<times> parser) result option \<Rightarrow> bool" where
  "returns_element p r =
     (\<exists>e p'. r = Some (Ok (e, p')) \<and> pstate p' = PARSER_NEUTRAL \<and> tokens p' = []
        \<and> parser_left p' \<le> parser_left p
        \<and> (e = ELEMENT_EOF \<or> tokens p \<noteq> [] \<or> parser_left p' < parser_left p))"

lemma returns_elementI:
  assumes "pstate p' = PARSER_NEUTRAL" and "tokens p' = []"
    and "parser_left p' \<le> parser_left p"
    and "e = ELEMENT_EOF \<or> tokens p \<noteq> [] \<or> parser_left p' < parser_left p"
  shows "returns_element p (Some (Ok (e, p')))"
  using assms by (simp add: returns_element_def)

lemma returns_element_later:
  assumes "returns_element q r" and "parser_left q < parser_left p"
  shows "returns_element p r"
  using assms by (auto simp: returns_element_def)

lemma parser_next_total:
  "parser_ready p \<Longrightarrow> returns_element p (parser_next p)"
proof (induction "parser_left p" arbitrary: p rule: less_induct)
  case less
  from less.prems have neutral: "pstate p = PARSER_NEUTRAL"
    and window: "tokens p = [] \<or> pending p"
    by (simp_all add: parser_ready_def)
  from tokenizer_next_progress [of "ptokenizer p"]
  obtain tok tk where tn: "tokenizer_next (ptokenizer p) = Ok (tok, tk)"
    and pr: "if tok = TOKEN_EOF then tstate tk = TOKENIZER_EOF
             else tokenizer_left tk < tokenizer_left (ptokenizer p)"
    by blast
  have le: "tokenizer_left tk \<le> tokenizer_left (ptokenizer p)"
    using pr by (auto simp: tokenizer_left_def split: if_splits)
  show ?case
  proof (cases "window_token tok")
    case False
    then consider "tok = TOKEN_EOF" | "tok = TOKEN_EOLN" | "tok = TOKEN_SEMI" | "tok = TOKEN_AMPERSAND"
      by (auto simp: window_token_def)
    then show ?thesis
    proof cases
      case 1
      with parser_next_eof [OF _ neutral, of tk] tn le show ?thesis
        by (auto simp: returns_element_def parser_left_def parser_truncate_def parser_complain_def neutral)
    next
      case 2
      with pr have lt: "tokenizer_left tk < tokenizer_left (ptokenizer p)" by simp
      let ?q = "p\<lparr>ptokenizer := tk, line := line p + 1\<rparr>"
      show ?thesis
      proof (cases "tokens p = []")
        case True
        with parser_next_eoln [OF _ neutral, of tk] tn 2 lt show ?thesis
          by (auto simp: returns_element_def parser_left_def neutral)
      next
        case False
        with window have "pending p" by simp
        then have "pending ?q" using pending_cong [of ?q p] by simp
        then have "parser_ready ?q" by (simp add: parser_ready_def neutral)
        moreover have l: "parser_left ?q < parser_left p" using lt by (simp add: parser_left_def)
        ultimately have "returns_element ?q (parser_next ?q)" by (rule less.hyps [rotated])
        from returns_element_later [OF this l] parser_next_eoln [OF _ neutral, of tk] tn 2 False
        show ?thesis by simp
      qed
    next
      case 3
      with pr have lt: "tokenizer_left tk < tokenizer_left (ptokenizer p)" by simp
      with parser_next_semi [OF _ neutral, of tk] tn 3 show ?thesis
        by (auto simp: returns_element_def parser_left_def parser_truncate_def parser_complain_def neutral)
    next
      case 4
      with pr have lt: "tokenizer_left tk < tokenizer_left (ptokenizer p)" by simp
      with parser_next_ampersand [OF _ neutral, of tk] tn 4 show ?thesis
        by (auto simp: returns_element_def parser_left_def parser_truncate_def parser_complain_def neutral)
    qed
  next
    case True
    then have "tok \<noteq> TOKEN_EOF" by (simp add: window_token_def)
    with pr have lt: "tokenizer_left tk < tokenizer_left (ptokenizer p)" by simp
    let ?p1 = "p\<lparr>ptokenizer := tk\<rparr>"
    let ?q = "p\<lparr>ptokenizer := tk, tokens := tokens p @ [tok]\<rparr>"
    have len: "length (tokens p) < MAX_TOKENS"
      using window pending_length [of p] by (auto simp: MAX_TOKENS_def)
    have w1: "tokens ?p1 = [] \<or> pending ?p1"
      using window pending_cong [of ?p1 p] by auto
    have q: "?q = ?p1\<lparr>tokens := tokens ?p1 @ [tok]\<rparr>" by simp
    have "match_kind (parser_match ?q) \<noteq> Aborted"
      unfolding q by (rule match_extend [OF w1])
    then obtain r p2 where m: "parser_match ?q = Ok (r, p2)"
      by (cases "parser_match ?q") auto
    note res = parser_match_result [OF m]
    note step = parser_next_window [OF tn neutral True]
    show ?thesis
    proof (cases r)
      case None
      with res have p2: "p2 = ?q" and l7: "length (tokens ?q) < MAX_TOKENS" by simp_all
      have "pending ?q" using m None by (simp add: pending_def)
      then have "parser_ready ?q" by (simp add: parser_ready_def neutral)
      moreover have l: "parser_left ?q < parser_left p" using lt by (simp add: parser_left_def)
      ultimately have "returns_element ?q (parser_next ?q)" by (rule less.hyps [rotated])
      from returns_element_later [OF this l] step len m None p2 l7
      show ?thesis by (simp add: parser_matched_def)
    next
      case (Some e)
      with res have "p2 = ?q \<or> (\<exists>msg. p2 = parser_complain ?q msg)" by auto
      then have "pstate (parser_truncate p2) = PARSER_NEUTRAL \<and> tokens (parser_truncate p2) = []
          \<and> parser_left (parser_truncate p2) < parser_left p"
        using lt by (auto simp: parser_truncate_def parser_complain_def parser_left_def neutral)
      then have "returns_element p (Some (Ok (e, parser_truncate p2)))"
        by (simp add: returns_element_def)
      with step len m Some show ?thesis by (simp add: parser_matched_def)
    qed
  qed
qed

section \<open>The command builder always ends\<close>

text \<open>
  One round of the loop of \<^verbatim>\<open>interpret\<close> as a step on the command and the events, and
  the invariant of the loop: the argument vector being collected holds no null pointer, and
  every command performed so far has an argument.
\<close>

definition step_command :: "element \<Rightarrow> command \<Rightarrow> command" where
  "step_command e c =
     (case e of
        ELEMENT_ARG s \<Rightarrow> arg_append c (Some s)
      | ELEMENT_EOLN \<Rightarrow> snd (gotline c False)
      | ELEMENT_SEMI \<Rightarrow> snd (gotline c False)
      | ELEMENT_BACKGROUND \<Rightarrow> snd (gotline c True)
      | ELEMENT_ERROR \<Rightarrow> c
      | ELEMENT_EOF \<Rightarrow> c
      | _ \<Rightarrow> redir_append c e)"

definition step_events :: "element \<Rightarrow> command \<Rightarrow> bool \<Rightarrow> event list" where
  "step_events e c interactive =
     (case e of
        ELEMENT_EOLN \<Rightarrow> fst (gotline c False) @ display_prompt interactive
      | ELEMENT_SEMI \<Rightarrow> fst (gotline c False)
      | ELEMENT_BACKGROUND \<Rightarrow> fst (gotline c True)
      | ELEMENT_ERROR \<Rightarrow> display_prompt interactive
      | _ \<Rightarrow> [])"

lemma interpret_loop_step:
  assumes "parser_next p = Some (Ok (e, p1))" and "e \<noteq> ELEMENT_EOF"
  shows "interpret_loop p c interactive tr =
         interpret_loop p1 (step_command e c) interactive (tr @ step_events e c interactive)"
  using assms
  by (subst interpret_loop.simps) (simp add: step_command_def step_events_def split: element.split)

lemma interpret_loop_eof:
  assumes "parser_next p = Some (Ok (ELEMENT_EOF, p1))"
  shows "interpret_loop p c interactive tr =
         Some (Ok (tr @ (if interactive then [Eof_notice] else []) @ fst (gotline c False)))"
  using assms by (subst interpret_loop.simps) simp

definition has_arguments :: "command \<Rightarrow> bool" where
  "has_arguments c = (\<exists>args. args \<noteq> [] \<and> argv c = map Some args @ [None])"

definition collecting :: "command \<Rightarrow> bool" where
  "collecting c = (\<exists>args. argv c = map Some args)"

definition performs_ok :: "event list \<Rightarrow> bool" where
  "performs_ok tr = (\<forall>c b. Call_perform c b \<in> set tr \<longrightarrow> has_arguments c)"

lemma performs_ok_append [simp]:
  "performs_ok (xs @ ys) = (performs_ok xs \<and> performs_ok ys)"
  by (auto simp: performs_ok_def)

lemma performs_ok_simps [simp]:
  "performs_ok []" "performs_ok (display_prompt i)" "performs_ok [Eof_notice]"
  by (simp_all add: performs_ok_def display_prompt_def)

lemma gotline_ok:
  assumes "collecting c"
  shows "performs_ok (fst (gotline c b)) \<and> collecting (snd (gotline c b))"
proof -
  from assms obtain args where a: "argv c = map Some args" by (auto simp: collecting_def)
  have "collecting (snd (gotline c b))"
    by (simp add: gotline_def collecting_def)
  moreover have "performs_ok (fst (gotline c b))"
  proof (cases "args = []")
    case True
    with a show ?thesis by (simp add: gotline_def)
  next
    case False
    with a have "has_arguments (arg_append c None)"
      by (auto simp: has_arguments_def arg_append_def)
    with a False show ?thesis by (simp add: gotline_def performs_ok_def)
  qed
  ultimately show ?thesis by simp
qed

lemma step_ok:
  assumes "collecting c"
  shows "performs_ok (step_events e c i) \<and> collecting (step_command e c)"
proof -
  have "collecting (arg_append c (Some s))" for s
  proof -
    from assms obtain args where "argv c = map Some args" by (auto simp: collecting_def)
    then have "argv (arg_append c (Some s)) = map Some (args @ [s])" by (simp add: arg_append_def)
    then show ?thesis unfolding collecting_def by blast
  qed
  moreover have "collecting (redir_append c e)"
    using assms by (simp add: collecting_def redir_append_def)
  ultimately show ?thesis
    using gotline_ok [OF assms] assms
    by (cases e) (simp_all add: step_events_def step_command_def)
qed

lemma interpret_loop_total:
  assumes "pstate p = PARSER_NEUTRAL" and "tokens p = []" and "collecting c" and "performs_ok tr"
  shows "\<exists>tr'. interpret_loop p c interactive tr = Some (Ok tr') \<and> performs_ok tr'"
  using assms
proof (induction "parser_left p" arbitrary: p c tr rule: less_induct)
  case less
  have "parser_ready p" using less.prems by (simp add: parser_ready_def)
  from parser_next_total [OF this] less.prems(2)
  obtain e p1 where n: "parser_next p = Some (Ok (e, p1))"
    and p1: "pstate p1 = PARSER_NEUTRAL" "tokens p1 = []"
    and dec: "e = ELEMENT_EOF \<or> parser_left p1 < parser_left p"
    by (auto simp: returns_element_def)
  show ?case
  proof (cases "e = ELEMENT_EOF")
    case True
    with n interpret_loop_eof [of p p1 c interactive tr] gotline_ok [OF less.prems(3)] less.prems(4)
    show ?thesis by simp
  next
    case False
    with dec have l: "parser_left p1 < parser_left p" by simp
    note s = step_ok [OF less.prems(3), of e interactive]
    have "performs_ok (tr @ step_events e c interactive)" using s less.prems(4) by simp
    from less.hyps [OF l p1 _ this, of "step_command e c"] s
      interpret_loop_step [OF n False, of c interactive tr]
    show ?thesis by simp
  qed
qed

lemma interpret_input_total:
  "\<exists>tr. interpret_input rd interactive = Some (Ok tr) \<and> performs_ok tr"
  unfolding interpret_input_def
  by (rule interpret_loop_total)
     (simp_all add: parser_create_def collecting_def)

section \<open>The tokenizer on quoted and escaped text\<close>

text \<open>
  Reading a well-formed piece in the neutral state appends the text it stands for to the
  text being collected, and starts no text when the piece stands for none.
\<close>

definition collect :: "string option \<Rightarrow> string \<Rightarrow> string option" where
  "collect acc s = (if s = [] then acc else Some (chars_of acc @ s))"

lemma collect_simps [simp]:
  "collect acc [] = acc"
  "collect (Some (chars_of acc @ [c])) s = collect acc (c # s)"
  "collect (collect acc s) s' = collect acc (s @ s')"
  by (simp_all add: collect_def chars_of_def)

lemma printable_ordinary:
  assumes "printable c"
  shows "c \<noteq> EOF_char" "c \<noteq> CHR 0x00" "c \<noteq> CHR 0x0A" "c \<noteq> CHR 0x09" "c \<noteq> CHR 0x0D"
  using assms by (auto simp: printable_def EOF_char_def)

lemma loop_continue:
  assumes "tokenizer_char \<lparr>reader = cs, tstate = st, buffered = b, tstring = acc\<rparr> c = Continue t2"
    and "st \<noteq> TOKENIZER_BUFFERED"
  shows "tokenizer_loop \<lparr>reader = c # cs, tstate = st, buffered = b, tstring = acc\<rparr>
         = tokenizer_loop t2"
  using assms by (subst tokenizer_loop.simps) (simp add: tokenizer_fetch_def)

lemma loop_single_quoted:
  assumes "list_all (\<lambda>c. printable c \<and> c \<noteq> CHR 0x27) s"
  shows "tokenizer_loop \<lparr>reader = s @ rest, tstate = TOKENIZER_SQ_STRING, buffered = b, tstring = acc\<rparr>
       = tokenizer_loop \<lparr>reader = rest, tstate = TOKENIZER_SQ_STRING, buffered = b,
                         tstring = collect acc s\<rparr>"
  using assms
proof (induction s arbitrary: acc)
  case Nil
  show ?case by simp
next
  case (Cons c s)
  then have c: "c \<noteq> EOF_char" "c \<noteq> CHR 0x27" and s: "list_all (\<lambda>c. printable c \<and> c \<noteq> CHR 0x27) s"
    using printable_ordinary(1) [of c] by simp_all
  have "tokenizer_char \<lparr>reader = s @ rest, tstate = TOKENIZER_SQ_STRING, buffered = b, tstring = acc\<rparr> c
      = Continue \<lparr>reader = s @ rest, tstate = TOKENIZER_SQ_STRING, buffered = b,
                  tstring = Some (chars_of acc @ [c])\<rparr>"
    using c by (simp add: tokenizer_char_def tokenizer_append_def)
  from loop_continue [OF this] Cons.IH [OF s, of "Some (chars_of acc @ [c])"]
  show ?case by simp
qed

lemma loop_double_quoted:
  assumes "list_all (\<lambda>c. printable c \<and> c \<noteq> CHR 0x22) s"
  shows "tokenizer_loop \<lparr>reader = s @ rest, tstate = TOKENIZER_DQ_STRING, buffered = b, tstring = acc\<rparr>
       = tokenizer_loop \<lparr>reader = rest, tstate = TOKENIZER_DQ_STRING, buffered = b,
                         tstring = collect acc s\<rparr>"
  using assms
proof (induction s arbitrary: acc)
  case Nil
  show ?case by simp
next
  case (Cons c s)
  then have c: "c \<noteq> EOF_char" "c \<noteq> CHR 0x22" and s: "list_all (\<lambda>c. printable c \<and> c \<noteq> CHR 0x22) s"
    using printable_ordinary(1) [of c] by simp_all
  have "tokenizer_char \<lparr>reader = s @ rest, tstate = TOKENIZER_DQ_STRING, buffered = b, tstring = acc\<rparr> c
      = Continue \<lparr>reader = s @ rest, tstate = TOKENIZER_DQ_STRING, buffered = b,
                  tstring = Some (chars_of acc @ [c])\<rparr>"
    using c by (simp add: tokenizer_char_def tokenizer_append_def)
  from loop_continue [OF this] Cons.IH [OF s, of "Some (chars_of acc @ [c])"]
  show ?case by simp
qed

lemma loop_open_quote:
  "tokenizer_loop \<lparr>reader = CHR 0x27 # cs, tstate = TOKENIZER_NEUTRAL, buffered = b, tstring = acc\<rparr>
     = tokenizer_loop \<lparr>reader = cs, tstate = TOKENIZER_SQ_STRING, buffered = b, tstring = acc\<rparr>"
  "tokenizer_loop \<lparr>reader = CHR 0x22 # cs, tstate = TOKENIZER_NEUTRAL, buffered = b, tstring = acc\<rparr>
     = tokenizer_loop \<lparr>reader = cs, tstate = TOKENIZER_DQ_STRING, buffered = b, tstring = acc\<rparr>"
  "tokenizer_loop \<lparr>reader = CHR 0x5C # cs, tstate = TOKENIZER_NEUTRAL, buffered = b, tstring = acc\<rparr>
     = tokenizer_loop \<lparr>reader = cs, tstate = TOKENIZER_ESC, buffered = b, tstring = acc\<rparr>"
  by (rule loop_continue; simp add: tokenizer_char_def EOF_char_def)+

lemma loop_close_quote:
  "tokenizer_loop \<lparr>reader = CHR 0x27 # cs, tstate = TOKENIZER_SQ_STRING, buffered = b, tstring = acc\<rparr>
     = tokenizer_loop \<lparr>reader = cs, tstate = TOKENIZER_NEUTRAL, buffered = b, tstring = acc\<rparr>"
  "tokenizer_loop \<lparr>reader = CHR 0x22 # cs, tstate = TOKENIZER_DQ_STRING, buffered = b, tstring = acc\<rparr>
     = tokenizer_loop \<lparr>reader = cs, tstate = TOKENIZER_NEUTRAL, buffered = b, tstring = acc\<rparr>"
  by (rule loop_continue; simp add: tokenizer_char_def EOF_char_def)+

lemma loop_escaped:
  assumes "c \<noteq> EOF_char"
  shows "tokenizer_loop \<lparr>reader = c # cs, tstate = TOKENIZER_ESC, buffered = b, tstring = acc\<rparr>
     = tokenizer_loop \<lparr>reader = cs, tstate = TOKENIZER_NEUTRAL, buffered = b,
                       tstring = collect acc [c]\<rparr>"
  using assms
  by (subst loop_continue) (simp_all add: tokenizer_char_def tokenizer_append_def collect_def)

lemma loop_plain:
  assumes "printable c" and "\<not> special c"
  shows "tokenizer_loop \<lparr>reader = c # cs, tstate = TOKENIZER_NEUTRAL, buffered = b, tstring = acc\<rparr>
     = tokenizer_loop \<lparr>reader = cs, tstate = TOKENIZER_NEUTRAL, buffered = b,
                       tstring = collect acc [c]\<rparr>"
  using assms printable_ordinary [OF assms(1)]
  by (subst loop_continue)
     (simp_all add: tokenizer_char_def tokenizer_append_def collect_def special_def)

lemma loop_piece:
  assumes "well_formed x"
  shows "tokenizer_loop \<lparr>reader = written x @ rest, tstate = TOKENIZER_NEUTRAL, buffered = b, tstring = acc\<rparr>
       = tokenizer_loop \<lparr>reader = rest, tstate = TOKENIZER_NEUTRAL, buffered = b,
                         tstring = collect acc (meant x)\<rparr>"
proof (cases x)
  case (Plain c)
  with assms loop_plain [of c rest b acc] show ?thesis by simp
next
  case (Escaped c)
  with assms loop_escaped [of c rest b acc] printable_ordinary(1) [of c] show ?thesis
    by (simp add: loop_open_quote)
next
  case (Single_quoted s)
  with assms loop_single_quoted [of s "CHR 0x27 # rest" b acc] show ?thesis
    by (simp add: loop_open_quote loop_close_quote)
next
  case (Double_quoted s)
  with assms loop_double_quoted [of s "CHR 0x22 # rest" b acc] show ?thesis
    by (simp add: loop_open_quote loop_close_quote)
qed

lemma loop_pieces:
  assumes "list_all well_formed ps"
  shows "tokenizer_loop \<lparr>reader = concat (map written ps) @ rest, tstate = TOKENIZER_NEUTRAL,
                         buffered = b, tstring = acc\<rparr>
       = tokenizer_loop \<lparr>reader = rest, tstate = TOKENIZER_NEUTRAL, buffered = b,
                         tstring = collect acc (concat (map meant ps))\<rparr>"
  using assms
proof (induction ps arbitrary: acc)
  case Nil
  show ?case by simp
next
  case (Cons x ps)
  then have x: "well_formed x" and ps: "list_all well_formed ps" by simp_all
  from loop_piece [OF x, of "concat (map written ps) @ rest" b acc]
    Cons.IH [OF ps, of "collect acc (meant x)"]
  show ?case by simp
qed

lemma c_str_terminated:
  assumes "CHR 0x00 \<notin> set s"
  shows "c_str (s @ [CHR 0x00]) = s"
  using assms by (auto simp: c_str_def takeWhile_tail)

lemma loop_at_end:
  "tokenizer_loop \<lparr>reader = [], tstate = TOKENIZER_NEUTRAL, buffered = b, tstring = acc\<rparr>
   = (case acc of
        None \<Rightarrow> Ok (TOKEN_EOF, \<lparr>reader = [], tstate = TOKENIZER_EOF, buffered = b, tstring = None\<rparr>)
      | Some s \<Rightarrow> Ok (TOKEN_STRING (c_str (s @ [CHR 0x00])),
                      \<lparr>reader = [], tstate = TOKENIZER_NEUTRAL, buffered = b, tstring = None\<rparr>))"
  by (subst tokenizer_loop.simps)
     (simp add: tokenizer_fetch_def tokenizer_char_def tokenizer_eof_def tokenizer_string_def
                tokenizer_append_def chars_of_def Let_def split: option.split)

lemma meant_printable:
  assumes "list_all well_formed ps"
  shows "list_all printable (concat (map meant ps))"
  using assms
proof (induction ps)
  case Nil
  show ?case by simp
next
  case (Cons x ps)
  then have "list_all printable (meant x)"
    by (cases x) (auto simp: list_all_iff)
  with Cons show ?case by simp
qed

lemma printable_not_null: "list_all printable s \<Longrightarrow> CHR 0x00 \<notin> set s"
  using printable_ordinary(2) by (auto simp: list_all_iff)

lemma tokenizer_next_pieces:
  assumes "list_all well_formed ps" and "concat (map meant ps) \<noteq> []"
  shows "tokenizer_next (tokenizer_create (concat (map written ps)))
       = Ok (TOKEN_STRING (concat (map meant ps)),
             \<lparr>reader = [], tstate = TOKENIZER_NEUTRAL, buffered = CHR 0x00, tstring = None\<rparr>)"
proof -
  have "CHR 0x00 \<notin> set (concat (map meant ps))"
    using meant_printable [OF assms(1)] by (rule printable_not_null)
  then have "c_str (concat (map meant ps) @ [CHR 0x00]) = concat (map meant ps)"
    by (rule c_str_terminated)
  with loop_pieces [OF assms(1), of "[]" "CHR 0x00" None] assms(2)
  show ?thesis
    by (simp add: tokenizer_next_def tokenizer_create_def loop_at_end collect_def chars_of_def)
qed

lemma tokenizer_next_at_end:
  "tokenizer_next \<lparr>reader = [], tstate = TOKENIZER_NEUTRAL, buffered = b, tstring = None\<rparr>
   = Ok (TOKEN_EOF, \<lparr>reader = [], tstate = TOKENIZER_EOF, buffered = b, tstring = None\<rparr>)"
  by (simp add: tokenizer_next_def loop_at_end)

lemma loop_separators:
  assumes "list_all separator ws"
  shows "tokenizer_loop \<lparr>reader = ws @ rest, tstate = TOKENIZER_NEUTRAL, buffered = b, tstring = None\<rparr>
       = tokenizer_loop \<lparr>reader = rest, tstate = TOKENIZER_NEUTRAL, buffered = b, tstring = None\<rparr>"
  using assms
proof (induction ws)
  case Nil
  show ?case by simp
next
  case (Cons c ws)
  then have c: "separator c" and ws: "list_all separator ws" by simp_all
  have "tokenizer_char \<lparr>reader = ws @ rest, tstate = TOKENIZER_NEUTRAL, buffered = b, tstring = None\<rparr> c
      = Continue \<lparr>reader = ws @ rest, tstate = TOKENIZER_NEUTRAL, buffered = b, tstring = None\<rparr>"
    using c by (auto simp: tokenizer_char_def separator_def EOF_char_def)
  from loop_continue [OF this] Cons.IH [OF ws] show ?case by simp
qed

section \<open>The claims\<close>

text \<open>
  Claim C1: when the parser gives an \<^verbatim>\<open>Error\<close> element the line collected so far is
  discarded, so that arguments collected before the error are never part of the next command
  performed. The code does not do this. In \<^verbatim>\<open>interpret\<close> the case \<^verbatim>\<open>ELEMENT_ERROR\<close> prints
  the prompt of a new line but, unlike the cases that end a line, leaves the command as it is.
  On the input \<^verbatim>\<open>echo { ;ls\<close> the semicolon after the open brace is an error, and the
  command performed at the end of the line is \<^verbatim>\<open>echo ls\<close>: the argument \<^verbatim>\<open>echo\<close> from
  before the error is carried over.
\<close>

theorem error_keeps_collected_arguments:
  "interpret_input ''echo { ;ls\<newline>'' False =
     Some (Ok [Call_perform \<lparr>argv = [Some ''echo'', Some ''ls'', None], redirs = []\<rparr> False])"
  by code_simp

text \<open>
  Claim C2: after a mismatch the parser emits one \<^verbatim>\<open>Error\<close> element and enters error
  recovery, discarding the tokens up to the next newline. The code emits the element and
  the diagnostic, but stays in the state \<^verbatim>\<open>PARSER_NEUTRAL\<close>: on \<^verbatim>\<open>< < a b\<close> the
  second \<^verbatim>\<open><\<close> is a mismatch, and the rest of the line is parsed and performed as the
  command \<^verbatim>\<open>a b\<close>.
\<close>

theorem mismatch_does_not_enter_recovery:
  "(case parser_next (parser_create (tokenizer_create ''< < a b\<newline>'')) of
      Some (Ok (e, p)) \<Rightarrow>
        e = ELEMENT_ERROR \<and> pstate p = PARSER_NEUTRAL \<and> perr p = [(1, ''expected file or fd'')]
    | _ \<Rightarrow> False)
   \<and> interpret_input ''< < a b\<newline>'' False =
       Some (Ok [Call_perform \<lparr>argv = [Some ''a'', Some ''b'', None], redirs = []\<rparr> False])"
  by code_simp

text \<open>
  Claim C3: a terminator token that arrives while the window of pending tokens is not empty
  is a grammar error. The code does this for \<^verbatim>\<open>;\<close> and \<^verbatim>\<open>&\<close>, but a newline in that
  place only advances the line counter and the match goes on: on \<^verbatim>\<open>>\<close>, newline,
  \<^verbatim>\<open>foo\<close> the first element is the redirection of descriptor 1 to the file \<^verbatim>\<open>foo\<close>,
  nothing is written to the error stream, and the parser is on line 2.
\<close>

theorem newline_inside_window_is_skipped:
  "(case parser_next (parser_create (tokenizer_create ''>\<newline>foo\<newline>'')) of
      Some (Ok (e, p)) \<Rightarrow>
        e = ELEMENT_REDIR_FILE_OUT 1 ''foo'' \<and> perr p = [] \<and> line p = 2
    | _ \<Rightarrow> False)"
  by code_simp

text \<open>
  Claim C4: in the foreground the shell waits for the child it has just forked and reports
  that child's end. The code calls \<^verbatim>\<open>wait\<close>, which returns the first child of the shell
  to end, whichever it is, and reports the process \<^verbatim>\<open>wait\<close> names. When \<^verbatim>\<open>fork\<close> has
  returned the child 101 and \<^verbatim>\<open>wait\<close> returns the end of an earlier background child 100,
  \<^verbatim>\<open>spawn\<close> reports process 100 and returns while child 101 still runs.
\<close>

theorem wait_reports_any_child:
  "spawn \<lparr>open_result = (\<lambda>name flags mode. 3), dup2_result = (\<lambda>fd2 fd1. fd1),
          fork_result = 101, wait_result = (100, Exited_with 0), getpid_result = 1\<rparr>
         \<lparr>argv = [Some ''sleep'', Some ''5'', None], redirs = []\<rparr> False
   = ([Sys_fork, Sys_wait, Write_stdout ''process:%d terminated with status %d'' [100, 0]],
      Returns)"
  by (simp add: spawn_def Let_def)

text \<open>
  Claim C5, as stated: every builtin, \<^verbatim>\<open>exec\<close> included, is refused when the command has
  a redirection. It fails for \<^verbatim>\<open>exec\<close>, which \<^verbatim>\<open>perform\<close> does not pass through
  \<^verbatim>\<open>builtin_check\<close>: \<^verbatim>\<open>exec ls\<close> with its output redirected is run.
\<close>

theorem exec_accepts_redirections:
  "perform \<lparr>argv = [Some ''exec'', Some ''ls'', None],
            redirs = [ELEMENT_REDIR_FILE_OUT 1 ''out'']\<rparr> False = Run_exec"
  by (simp add: perform_def)

text \<open>
  Claim C5, amended: \<^verbatim>\<open>cd\<close>, \<^verbatim>\<open>source\<close> and \<^verbatim>\<open>exit\<close> are refused with a message, and
  their bodies not run, when the command has a redirection or is to run in the background;
  \<^verbatim>\<open>exec\<close> is refused in the background only, and in the foreground it runs and starts by
  applying the command's redirections.
\<close>

theorem builtins_refuse_by_design:
  assumes "argv c = Some name # rest"
  shows "((name = ''cd'' \<or> name = ''source'' \<or> name = ''exit'') \<and> (background \<or> redirs c \<noteq> [])
            \<longrightarrow> (\<exists>msg. perform c background = Refuse msg))
       \<and> (name = ''exec'' \<and> background \<longrightarrow> (\<exists>msg. perform c background = Refuse msg))
       \<and> (name = ''exec'' \<and> \<not> background \<longrightarrow>
            perform c background = Run_exec \<and> (\<exists>tr. fst (exec sys c) = fst (redir sys c) @ tr))"
proof -
  have "\<exists>tr. fst (exec sys c) = fst (redir sys c) @ tr"
    by (cases "redir sys c") (auto simp: exec_def split: fate.splits)
  with assms show ?thesis
    by (auto simp: perform_def builtin_check_def)
qed

theorem builtins_refuse_by_design_witness:
  "perform \<lparr>argv = [Some ''cd'', Some ''/tmp'', None], redirs = [ELEMENT_REDIR_FILE_OUT 1 ''out'']\<rparr> False
     = Refuse (''can'' @ [CHR 0x27] @ ''t redirect I/O for builtin commands'')
   \<and> perform \<lparr>argv = [Some ''exit'', None], redirs = []\<rparr> True
     = Refuse (''can'' @ [CHR 0x27] @ ''t run builtin commands in background'')
   \<and> perform \<lparr>argv = [Some ''exec'', Some ''ls'', None], redirs = []\<rparr> True
     = Refuse (''can'' @ [CHR 0x27] @ ''t exec in background'')
   \<and> perform \<lparr>argv = [Some ''exec'', None], redirs = [ELEMENT_REDIR_FD_OUT 2 1]\<rparr> False = Run_exec"
  using builtins_refuse_by_design [of "\<lparr>argv = [Some ''cd'', Some ''/tmp'', None], redirs = [ELEMENT_REDIR_FILE_OUT 1 ''out'']\<rparr>"
          "''cd''" "[Some ''/tmp'', None]" False]
        builtins_refuse_by_design [of "\<lparr>argv = [Some ''exec'', None], redirs = [ELEMENT_REDIR_FD_OUT 2 1]\<rparr>"
          "''exec''" "[None]" False]
  by (simp add: perform_def builtin_check_def)

text \<open>
  Claim C6: a file redirection opens the path in the mode of its direction, and for an
  append that mode creates the file. The code opens an append redirection with
  \<^verbatim>\<open>O_WRONLY | O_APPEND\<close> and no \<^verbatim>\<open>O_CREAT\<close>, unlike the output redirection. On a system
  where the file does not exist, so that \<^verbatim>\<open>open\<close> succeeds only with \<^verbatim>\<open>O_CREAT\<close>, the
  redirection of \<^verbatim>\<open>echo hi >> new.txt\<close> fails and the child exits with status 1.
\<close>

theorem append_opens_without_create:
  "redir \<lparr>open_result = (\<lambda>name flags mode. if O_CREAT \<in> flags then 3 else - 1),
          dup2_result = (\<lambda>fd2 fd1. if fd2 < 0 then - 1 else fd1),
          fork_result = 0, wait_result = (0, Stopped), getpid_result = 1\<rparr>
         \<lparr>argv = [Some ''echo'', Some ''hi'', None],
          redirs = [ELEMENT_REDIR_FILE_APPEND 1 ''new.txt'']\<rparr>
   = ([Sys_open ''new.txt'' {O_WRONLY, O_APPEND} 420,
       Write_stdout ''REDIRECT %d TO %d'' [1, - 1], Sys_dup2 (- 1) 1, Sys_exit 1],
      Process_ends)"
  by (simp add: redir_def redir_element_def redir_file_def redir_fd_def Let_def)

text \<open>
  Claim C7: a command with no argument is never performed. For every input and both kinds
  of run, \<^verbatim>\<open>interpret\<close> returns, and every call of \<^verbatim>\<open>perform\<close> it makes passes an
  argument vector of at least one argument followed by the null pointer.
\<close>

theorem perform_only_with_arguments:
  "\<exists>tr. interpret_input rd interactive = Some (Ok tr)
      \<and> (\<forall>c b. Call_perform c b \<in> set tr \<longrightarrow>
            (\<exists>args. args \<noteq> [] \<and> argv c = map Some args @ [None]))"
  using interpret_input_total [of rd interactive]
  by (simp add: performs_ok_def has_arguments_def)

theorem perform_only_with_arguments_witness:
  "interpret_input ''{2}>{1}\<newline>'' False = Some (Ok [])
   \<and> interpret_input ''ls -l\<newline>'' False
       = Some (Ok [Call_perform \<lparr>argv = [Some ''ls'', Some ''-l'', None], redirs = []\<rparr> False])
   \<and> (\<exists>args. args \<noteq> [] \<and> [Some ''ls'', Some ''-l'', None] = map Some args @ [None])"
proof -
  have a: "interpret_input ''{2}>{1}\<newline>'' False = Some (Ok [])"
    by code_simp
  have b: "interpret_input ''ls -l\<newline>'' False
       = Some (Ok [Call_perform \<lparr>argv = [Some ''ls'', Some ''-l'', None], redirs = []\<rparr> False])"
    by code_simp
  from perform_only_with_arguments [of "''ls -l\<newline>''" False] b
  have "\<exists>args. args \<noteq> [] \<and> [Some ''ls'', Some ''-l'', None] = map Some args @ [None]"
    by auto
  with a b show ?thesis by simp
qed

text \<open>
  Claim C8, as stated: every input of quoted or escaped printable text gives exactly one
  \<^verbatim>\<open>Argument\<close> element. It fails for quoted text that is empty: the input of two single
  quotes is well formed, and the first element is the end of input.
\<close>

theorem empty_quoted_text_is_no_argument:
  "list_all well_formed [Single_quoted []]
   \<and> (case parser_next (parser_create (tokenizer_create (concat (map written [Single_quoted []])))) of
         Some (Ok (e, p)) \<Rightarrow> e = ELEMENT_EOF
       | _ \<Rightarrow> False)"
  by code_simp

text \<open>
  Claim C8, amended: for every input made of plain, escaped and quoted printable text whose
  text without the quotes and backslashes is not empty, the parser's first element is the
  \<^verbatim>\<open>Argument\<close> with exactly that text, and its second element is the end of input.
\<close>

theorem quoted_text_is_one_argument:
  assumes "list_all well_formed ps" and "concat (map meant ps) \<noteq> []"
  shows "\<exists>p1 p2.
           parser_next (parser_create (tokenizer_create (concat (map written ps))))
             = Some (Ok (ELEMENT_ARG (concat (map meant ps)), p1))
         \<and> parser_next p1 = Some (Ok (ELEMENT_EOF, p2))"
proof -
  let ?t1 = "\<lparr>reader = [], tstate = TOKENIZER_NEUTRAL, buffered = CHR 0x00, tstring = None\<rparr>"
  let ?p0 = "parser_create (tokenizer_create (concat (map written ps)))"
  let ?p1 = "\<lparr>pstate = PARSER_NEUTRAL, ptokenizer = ?t1, tokens = [], line = 1, perr = []\<rparr>"
  have t: "tokenizer_next (ptokenizer ?p0) = Ok (TOKEN_STRING (concat (map meant ps)), ?t1)"
    using tokenizer_next_pieces [OF assms] by (simp add: parser_create_def)
  have "parser_next ?p0 = Some (Ok (ELEMENT_ARG (concat (map meant ps)), ?p1))"
    by (subst parser_next_window [OF t])
       (simp_all add: parser_create_def window_token_def MAX_TOKENS_def parser_match_def
                      parser_matched_def parser_truncate_def)
  moreover have "\<exists>p2. parser_next ?p1 = Some (Ok (ELEMENT_EOF, p2))"
  proof -
    have e: "tokenizer_next (ptokenizer ?p1)
           = Ok (TOKEN_EOF, \<lparr>reader = [], tstate = TOKENIZER_EOF, buffered = CHR 0x00, tstring = None\<rparr>)"
      by (simp add: tokenizer_next_at_end)
    have n: "pstate ?p1 = PARSER_NEUTRAL" by simp
    from parser_next_eof [OF e n] show ?thesis by simp
  qed
  ultimately show ?thesis by blast
qed

theorem quoted_text_is_one_argument_witness:
  "\<exists>p1 p2.
     parser_next (parser_create (tokenizer_create
        ([CHR 0x27] @ ''a b'' @ [CHR 0x27, CHR 0x5C] @ ''<'' @ [CHR 0x22] @ ''c;'' @ [CHR 0x22] @ ''d'')))
       = Some (Ok (ELEMENT_ARG ''a b<c;d'', p1))
   \<and> parser_next p1 = Some (Ok (ELEMENT_EOF, p2))"
  using quoted_text_is_one_argument
          [of "[Single_quoted ''a b'', Escaped (CHR ''<''), Double_quoted ''c;'', Plain (CHR ''d'')]"]
  by (simp add: printable_def special_def)



text \<open>
  Claim C10: an empty quoted string gives no token. For an input that is two single or two
  double quotes between runs of separators, the tokenizer's first token is the end of input,
  and the parser's first element is the end of input: no text token and no argument.
\<close>

theorem empty_quotes_give_no_token:
  assumes "list_all separator before" and "list_all separator after"
    and "q = CHR 0x27 \<or> q = CHR 0x22"
  shows "\<exists>t p. tokenizer_next (tokenizer_create (before @ [q, q] @ after)) = Ok (TOKEN_EOF, t)
         \<and> parser_next (parser_create (tokenizer_create (before @ [q, q] @ after)))
             = Some (Ok (ELEMENT_EOF, p))"
proof -
  let ?t = "\<lparr>reader = [], tstate = TOKENIZER_EOF, buffered = CHR 0x00, tstring = None\<rparr>"
  let ?p0 = "parser_create (tokenizer_create (before @ [q, q] @ after))"
  have "tokenizer_loop \<lparr>reader = [q, q] @ after, tstate = TOKENIZER_NEUTRAL, buffered = CHR 0x00, tstring = None\<rparr>
      = tokenizer_loop \<lparr>reader = after, tstate = TOKENIZER_NEUTRAL, buffered = CHR 0x00, tstring = None\<rparr>"
    using assms(3) by (auto simp: loop_open_quote loop_close_quote)
  with loop_separators [OF assms(1), of "[q, q] @ after" "CHR 0x00"]
    loop_separators [OF assms(2), of "[]" "CHR 0x00"]
  have t: "tokenizer_next (tokenizer_create (before @ [q, q] @ after)) = Ok (TOKEN_EOF, ?t)"
    by (simp add: tokenizer_next_def tokenizer_create_def loop_at_end)
  then have "tokenizer_next (ptokenizer ?p0) = Ok (TOKEN_EOF, ?t)"
    by (simp add: parser_create_def)
  from parser_next_eof [OF this] have "\<exists>p. parser_next ?p0 = Some (Ok (ELEMENT_EOF, p))"
    by (simp add: parser_create_def)
  with t show ?thesis by blast
qed

theorem empty_quotes_give_no_token_witness:
  "(\<exists>t p. tokenizer_next (tokenizer_create ('' '' @ [CHR 0x27, CHR 0x27] @ [CHR 0x09, CHR '' '']))
             = Ok (TOKEN_EOF, t)
         \<and> parser_next (parser_create (tokenizer_create
              ('' '' @ [CHR 0x27, CHR 0x27] @ [CHR 0x09, CHR '' ''])))
             = Some (Ok (ELEMENT_EOF, p)))
   \<and> interpret_input (''echo '' @ [CHR 0x22, CHR 0x22] @ '' x\<newline>'') False
       = Some (Ok [Call_perform \<lparr>argv = [Some ''echo'', Some ''x'', None], redirs = []\<rparr> False])"
proof -
  have "interpret_input (''echo '' @ [CHR 0x22, CHR 0x22] @ '' x\<newline>'') False
       = Some (Ok [Call_perform \<lparr>argv = [Some ''echo'', Some ''x'', None], redirs = []\<rparr> False])"
    by code_simp
  with empty_quotes_give_no_token [of "'' ''" "[CHR 0x09, CHR '' '']" "CHR 0x27"]
  show ?thesis by (simp add: separator_def)
qed

end
